theory Spec2Isabelle
  imports Main "HOL-Library.Multiset"
begin

section \<open>Data model of the wallet transaction engine\<close>

text \<open>
  Money values are \<open>int64_t\<close> counts of the smallest coin unit. Signed overflow is
  undefined in C++, so amounts are modelled as \<open>int\<close>: the model describes every run of
  the code in which no sum leaves the 64-bit range. Where the code itself uses the
  largest 64-bit value as a sentinel, the model uses \<open>INT64_MAX\<close>.
  Times are \<open>unsigned int\<close>: naturals, with the 32-bit wrap-around written out where the
  code adds to them.
\<close>

definition INT64_MAX :: int where
  "INT64_MAX = 2 ^ 63 - 1"


type_synonym CScript = string

record CTxOut =
  nValue :: int
  scriptPubKey :: CScript

text \<open>
  A wallet transaction (\<open>CWalletTx\<close>). The fields after \<open>vfSpent\<close> hold what the
  methods of the same name return in the current chain state; their bodies live in
  \<open>wallet.h\<close> and \<open>main.h\<close>, outside the sources read here.
\<close>

record CWalletTx =
  GetHash :: nat
  vout :: "CTxOut list"
  nTime :: nat
  fFromMe :: bool
  vfSpent :: "bool list"
  GetDepthInMainChain :: int
  GetBlocksToMaturity :: int
  IsCoinBase :: bool
  IsCoinStake :: bool
  IsFromMe :: bool
  IsTrusted :: bool
  IsFinalTx :: bool
  AreDependenciesConfirmed :: bool

text \<open>
  \<open>mapWallet\<close> is a \<open>std::map\<close> from transaction id to record; every loop of the
  code walks it in key order, so it is the list of its records in that order.
\<close>

type_synonym mapWallet = "CWalletTx list"

text \<open>A candidate output (\<open>COutput\<close>): record pointer, output index, depth.\<close>

record COutput =
  tx :: CWalletTx
  i :: nat
  nDepth :: int

type_synonym coin = "CWalletTx \<times> nat"

definition coin_value :: "coin \<Rightarrow> int" where
  "coin_value c = nValue (vout (fst c) ! snd c)"

definition output_value :: "COutput \<Rightarrow> int" where
  "output_value out = nValue (vout (tx out) ! i out)"

section \<open>Balance views: GetStake and GetNewMint\<close>

text \<open>
  \<open>CWallet::GetCredit(const CWalletTx&)\<close> is declared outside the sources; it is a
  parameter of both views.
\<close>

definition GetStake :: "(CWalletTx \<Rightarrow> int) \<Rightarrow> mapWallet \<Rightarrow> int" where
  "GetStake GetCredit wallet =
     foldl (\<lambda>nTotal pcoin.
        if IsCoinStake pcoin \<and> GetBlocksToMaturity pcoin > 0 \<and> GetDepthInMainChain pcoin > 0
        then nTotal + GetCredit pcoin else nTotal) 0 wallet"

definition GetNewMint :: "(CWalletTx \<Rightarrow> int) \<Rightarrow> mapWallet \<Rightarrow> int" where
  "GetNewMint GetCredit wallet =
     foldl (\<lambda>nTotal pcoin.
        if IsCoinStake pcoin \<and> GetBlocksToMaturity pcoin > 0 \<and> GetDepthInMainChain pcoin > 0
        then nTotal + GetCredit pcoin else nTotal) 0 wallet"

definition immature_stake :: "CWalletTx \<Rightarrow> bool" where
  "immature_stake pcoin =
     (IsCoinStake pcoin \<and> GetBlocksToMaturity pcoin > 0 \<and> GetDepthInMainChain pcoin > 0)"

section \<open>Key vault: Unlock\<close>

type_synonym bytes = "nat list"

record CMasterKey =
  vchCryptedKey :: bytes
  vchSalt :: bytes
  nDerivationMethod :: nat
  nDeriveIterations :: nat

text \<open>
  The cryptographic collaborators (\<open>crypter.h\<close>, \<open>keystore.h\<close>) are outside the
  sources. \<open>SetKeyFromPassphrase\<close> yields the derived key or fails; \<open>Decrypt\<close> yields the
  plaintext master key or fails; \<open>KeyStoreUnlock\<close> is \<open>CCryptoKeyStore::Unlock\<close>, which
  accepts a master key exactly when it decrypts the stored keys.
\<close>

record crypter =
  SetKeyFromPassphrase :: "string \<Rightarrow> bytes \<Rightarrow> nat \<Rightarrow> nat \<Rightarrow> bytes option"
  Decrypt :: "bytes \<Rightarrow> bytes \<Rightarrow> bytes option"
  KeyStoreUnlock :: "bytes \<Rightarrow> bool"

text \<open>
  Modelled from the spec: the encryption state of the vault (\<open>IsLocked\<close> is declared in
  \<open>keystore.h\<close>, outside the sources). The vault is in exactly one of three states; the
  unlocked state holds the session master key.
\<close>

datatype vault_state = Unencrypted | Locked | Unlocked bytes

record vault =
  state :: vault_state
  mapMasterKeys :: "(nat \<times> CMasterKey) list"

definition IsLocked :: "vault \<Rightarrow> bool" where
  "IsLocked v = (state v = Locked)"

text \<open>The loop of \<open>CWallet::Unlock\<close> over the stored master-key records.\<close>

fun Unlock_keys :: "crypter \<Rightarrow> string \<Rightarrow> (nat \<times> CMasterKey) list \<Rightarrow> bytes option" where
  "Unlock_keys cr pw [] = None"
| "Unlock_keys cr pw (pMasterKey # rest) =
     (case SetKeyFromPassphrase cr pw (vchSalt (snd pMasterKey))
             (nDeriveIterations (snd pMasterKey)) (nDerivationMethod (snd pMasterKey)) of
        None \<Rightarrow> None
      | Some k \<Rightarrow>
          (case Decrypt cr k (vchCryptedKey (snd pMasterKey)) of
             None \<Rightarrow> None
           | Some vMasterKey \<Rightarrow>
               if KeyStoreUnlock cr vMasterKey then Some vMasterKey
               else Unlock_keys cr pw rest))"

definition Unlock :: "crypter \<Rightarrow> string \<Rightarrow> vault \<Rightarrow> bool \<times> vault" where
  "Unlock cr pw v =
     (if \<not> IsLocked v then (False, v)
      else case Unlock_keys cr pw (mapMasterKeys v) of
             None \<Rightarrow> (False, v)
           | Some vMasterKey \<Rightarrow> (True, v\<lparr>state := Unlocked vMasterKey\<rparr>))"

text \<open>A record matches a passphrase when its master key decrypts and opens the key store.\<close>

definition record_matches :: "crypter \<Rightarrow> string \<Rightarrow> CMasterKey \<Rightarrow> bool" where
  "record_matches cr pw mk =
     (case SetKeyFromPassphrase cr pw (vchSalt mk) (nDeriveIterations mk) (nDerivationMethod mk) of
        None \<Rightarrow> False
      | Some k \<Rightarrow> (case Decrypt cr k (vchCryptedKey mk) of
                     None \<Rightarrow> False
                   | Some vMasterKey \<Rightarrow> KeyStoreUnlock cr vMasterKey))"

text \<open>
  A small concrete vault with two master-key records, wrapped under the passphrases
  \<open>''alpha''\<close> and \<open>''beta''\<close>. The toy cipher derives the key as passphrase length
  followed by the salt, and decryption succeeds exactly when the first byte of the
  ciphertext names the key length (standing for the padding check of the real cipher).
\<close>

definition toy_crypter :: crypter where
  "toy_crypter = \<lparr>
     SetKeyFromPassphrase = (\<lambda>pw salt iters method. Some (length pw # salt)),
     Decrypt = (\<lambda>k c. if take 1 c = take 1 k then Some (drop 1 c) else None),
     KeyStoreUnlock = (\<lambda>m. m = [7, 7, 7]) \<rparr>"

definition two_key_vault :: vault where
  "two_key_vault = \<lparr> state = Locked,
     mapMasterKeys =
       [(1, \<lparr> vchCryptedKey = [5, 7, 7, 7], vchSalt = [1], nDerivationMethod = 0,
              nDeriveIterations = 25000 \<rparr>),
        (2, \<lparr> vchCryptedKey = [4, 7, 7, 7], vchSalt = [2], nDerivationMethod = 0,
              nDeriveIterations = 25000 \<rparr>)] \<rparr>"

section \<open>Consistency auditor: FixSpentCoins\<close>

text \<open>
  The authoritative transaction index (\<open>CTxIndex\<close>, read through \<open>CTxDB::ReadTxIndex\<close>)
  holds one disk position per output; a null position means the output is unspent
  there.
\<close>

type_synonym CDiskTxPos = "nat option"

definition IsNull :: "CDiskTxPos \<Rightarrow> bool" where
  "IsNull pos = (pos = None)"

record CTxIndex =
  vSpent :: "CDiskTxPos list"

text \<open>
  Modelled from the spec: \<open>CWalletTx::IsSpent\<close>, \<open>MarkSpent\<close> and \<open>MarkUnspent\<close> are
  declared in \<open>wallet.h\<close>, outside the sources. The record carries a per-output spent
  bitmap with one entry per output: marking first sizes the bitmap to the number of
  outputs and then writes the entry; an entry the bitmap does not have reads as unspent.
\<close>

definition IsSpent :: "CWalletTx \<Rightarrow> nat \<Rightarrow> bool" where
  "IsSpent wtx nOut = (if nOut \<ge> length (vfSpent wtx) then False else vfSpent wtx ! nOut)"

definition resize :: "nat \<Rightarrow> bool list \<Rightarrow> bool list" where
  "resize n bs = take n bs @ replicate (n - length bs) False"

definition MarkSpent :: "CWalletTx \<Rightarrow> nat \<Rightarrow> CWalletTx" where
  "MarkSpent wtx nOut = wtx\<lparr>vfSpent := (resize (length (vout wtx)) (vfSpent wtx))[nOut := True]\<rparr>"

definition MarkUnspent :: "CWalletTx \<Rightarrow> nat \<Rightarrow> CWalletTx" where
  "MarkUnspent wtx nOut = wtx\<lparr>vfSpent := (resize (length (vout wtx)) (vfSpent wtx))[nOut := False]\<rparr>"

text \<open>
  The body of the inner loop of \<open>CWallet::FixSpentCoins\<close> for output \<open>n\<close>; the state is
  the record and the two counters. \<open>IsMine\<close> stands for \<open>IsMine(txout) != ISMINE_NO\<close>.
  Writing the record to disk has no effect on the in-memory ledger and is left out.
\<close>

definition FixSpentCoins_output ::
  "(CTxOut \<Rightarrow> bool) \<Rightarrow> bool \<Rightarrow> CTxIndex \<Rightarrow> CWalletTx \<times> int \<times> int \<Rightarrow> nat
     \<Rightarrow> CWalletTx \<times> int \<times> int" where
  "FixSpentCoins_output IsMine fCheckOnly txindex s n =
     (case s of (pcoin, nMismatchFound, nBalanceInQuestion) \<Rightarrow>
        if IsMine (vout pcoin ! n) \<and> IsSpent pcoin n
           \<and> (length (vSpent txindex) \<le> n \<or> IsNull (vSpent txindex ! n))
        then ((if \<not> fCheckOnly then MarkUnspent pcoin n else pcoin),
              nMismatchFound + 1, nBalanceInQuestion + nValue (vout pcoin ! n))
        else if IsMine (vout pcoin ! n) \<and> \<not> IsSpent pcoin n
           \<and> (length (vSpent txindex) > n \<and> \<not> IsNull (vSpent txindex ! n))
        then ((if \<not> fCheckOnly then MarkSpent pcoin n else pcoin),
              nMismatchFound + 1, nBalanceInQuestion + nValue (vout pcoin ! n))
        else s)"

fun FixSpentCoins_loop ::
  "(CTxOut \<Rightarrow> bool) \<Rightarrow> (nat \<Rightarrow> CTxIndex option) \<Rightarrow> bool \<Rightarrow> mapWallet \<Rightarrow> int \<Rightarrow> int
     \<Rightarrow> mapWallet \<times> int \<times> int" where
  "FixSpentCoins_loop IsMine ReadTxIndex fCheckOnly [] nMismatchFound nBalanceInQuestion =
     ([], nMismatchFound, nBalanceInQuestion)"
| "FixSpentCoins_loop IsMine ReadTxIndex fCheckOnly (pcoin # rest) nMismatchFound nBalanceInQuestion =
     (case ReadTxIndex (GetHash pcoin) of
        None \<Rightarrow>
          (case FixSpentCoins_loop IsMine ReadTxIndex fCheckOnly rest nMismatchFound nBalanceInQuestion of
             (rest', m, b) \<Rightarrow> (pcoin # rest', m, b))
      | Some txindex \<Rightarrow>
          (case foldl (FixSpentCoins_output IsMine fCheckOnly txindex)
                  (pcoin, nMismatchFound, nBalanceInQuestion) [0..<length (vout pcoin)] of
             (pcoin', m1, b1) \<Rightarrow>
               (case FixSpentCoins_loop IsMine ReadTxIndex fCheckOnly rest m1 b1 of
                  (rest', m, b) \<Rightarrow> (pcoin' # rest', m, b))))"

text \<open>\<open>FixSpentCoins\<close> returns the repaired ledger, the mismatch count and the value in question.\<close>

definition FixSpentCoins ::
  "(CTxOut \<Rightarrow> bool) \<Rightarrow> (nat \<Rightarrow> CTxIndex option) \<Rightarrow> mapWallet \<Rightarrow> bool \<Rightarrow> mapWallet \<times> int \<times> int" where
  "FixSpentCoins IsMine ReadTxIndex wallet fCheckOnly =
     FixSpentCoins_loop IsMine ReadTxIndex fCheckOnly wallet 0 0"

text \<open>Output \<open>n\<close> of a record agrees with the index when it is not owned or both flags agree.\<close>

definition index_spent :: "CTxIndex \<Rightarrow> nat \<Rightarrow> bool" where
  "index_spent txindex n = (length (vSpent txindex) > n \<and> \<not> IsNull (vSpent txindex ! n))"

definition synced :: "(CTxOut \<Rightarrow> bool) \<Rightarrow> CTxIndex \<Rightarrow> CWalletTx \<Rightarrow> nat \<Rightarrow> bool" where
  "synced IsMine txindex p n = (\<not> IsMine (vout p ! n) \<or> IsSpent p n = index_spent txindex n)"


text \<open>A ledger with one record whose two owned outputs both disagree with the index.\<close>

definition example_wtx :: CWalletTx where
  "example_wtx = \<lparr> GetHash = 1,
     vout = [\<lparr> nValue = 10, scriptPubKey = ''a'' \<rparr>, \<lparr> nValue = 20, scriptPubKey = ''b'' \<rparr>],
     nTime = 100, fFromMe = False, vfSpent = [True, False],
     GetDepthInMainChain = 5, GetBlocksToMaturity = 0, IsCoinBase = False, IsCoinStake = False,
     IsFromMe = False, IsTrusted = True, IsFinalTx = True, AreDependenciesConfirmed = True \<rparr>"

definition example_index :: "nat \<Rightarrow> CTxIndex option" where
  "example_index h = (if h = 1 then Some \<lparr> vSpent = [None, Some 7] \<rparr> else None)"

definition all_mine :: "CTxOut \<Rightarrow> bool" where
  "all_mine txout = True"

section \<open>Staking selection\<close>














section \<open>Coin selection: SelectCoinsMinConf and SelectSmallestCoins\<close>

text \<open>
  A candidate with its value in front, as the code pairs them:
  \<open>pair<int64_t, pair<const CWalletTx*, unsigned int>>\<close>.
\<close>

type_synonym valued = "int \<times> coin"

text \<open>
  The two tests that open the loop body of both policies: confirmation depth against
  \<open>nConfMine\<close> or \<open>nConfTheirs\<close>, and the timestamp rule.
\<close>

definition eligible :: "nat \<Rightarrow> int \<Rightarrow> int \<Rightarrow> COutput \<Rightarrow> bool" where
  "eligible nSpendTime nConfMine nConfTheirs output =
     (\<not> nDepth output < (if IsFromMe (tx output) then nConfMine else nConfTheirs)
      \<and> \<not> nTime (tx output) > nSpendTime)"

text \<open>
  The first loop of \<open>SelectCoinsMinConf\<close> either returns at an exact match or ends with
  the lowest larger coin, the list of smaller coins and their total. \<open>coinLowestLarger\<close>
  starts as the largest 64-bit value paired with a null pointer (\<open>None\<close>).
\<close>

datatype scan_result =
  Exact_match valued
| Scanned "int \<times> coin option" "valued list" int

fun scan_coins ::
  "int \<Rightarrow> int \<Rightarrow> nat \<Rightarrow> int \<Rightarrow> int \<Rightarrow> COutput list \<Rightarrow> int \<times> coin option \<Rightarrow> valued list \<Rightarrow> int
     \<Rightarrow> scan_result" where
  "scan_coins CENT nTargetValue nSpendTime nConfMine nConfTheirs [] coinLowestLarger vValue nTotalLower =
     Scanned coinLowestLarger vValue nTotalLower"
| "scan_coins CENT nTargetValue nSpendTime nConfMine nConfTheirs (output # rest) coinLowestLarger vValue
       nTotalLower =
     (let pcoin = tx output in
      if nDepth output < (if IsFromMe pcoin then nConfMine else nConfTheirs) then
        scan_coins CENT nTargetValue nSpendTime nConfMine nConfTheirs rest coinLowestLarger vValue
          nTotalLower
      else if nTime pcoin > nSpendTime then
        scan_coins CENT nTargetValue nSpendTime nConfMine nConfTheirs rest coinLowestLarger vValue
          nTotalLower
      else
        let n = nValue (vout pcoin ! i output);
            coin = (n, (pcoin, i output))
        in if n = nTargetValue then Exact_match coin
           else if n < nTargetValue + CENT then
             scan_coins CENT nTargetValue nSpendTime nConfMine nConfTheirs rest coinLowestLarger
               (vValue @ [coin]) (nTotalLower + n)
           else if n < fst coinLowestLarger then
             scan_coins CENT nTargetValue nSpendTime nConfMine nConfTheirs rest (n, Some (snd coin))
               vValue nTotalLower
           else
             scan_coins CENT nTargetValue nSpendTime nConfMine nConfTheirs rest coinLowestLarger
               vValue nTotalLower)"

text \<open>
  \<open>ApproximateBestSubset\<close>. The state of the loops: the local variables of one
  repetition, the best subset so far, and how many random bits have been drawn.
  \<open>rng k\<close> is the \<open>k\<close>-th result of \<open>randbool()\<close> of the function's own
  \<open>FastRandomContext\<close>.
\<close>

record approx_state =
  s_vfIncluded :: "bool list"
  s_nTotal :: int
  s_fReachedTarget :: bool
  s_nBest :: int
  s_vfBest :: "bool list"
  s_rand :: nat

text \<open>
  The body of the innermost loop at index \<open>n\<close> in pass \<open>nPass\<close>.
\<close>

definition approx_step ::
  "(nat \<Rightarrow> bool) \<Rightarrow> valued list \<Rightarrow> int \<Rightarrow> nat \<Rightarrow> approx_state \<Rightarrow> nat \<Rightarrow> approx_state" where
  "approx_step rng vValue nTargetValue nPass s0 n =
     (let pick = (if nPass = 0 then rng (s_rand s0) else \<not> s_vfIncluded s0 ! n);
          s = (if nPass = 0 then s0\<lparr>s_rand := s_rand s0 + 1\<rparr> else s0)
      in if pick then
           (let total = s_nTotal s + fst (vValue ! n);
                included = (s_vfIncluded s)[n := True]
            in if total \<ge> nTargetValue then
                 (let s = s\<lparr>s_fReachedTarget := True\<rparr>;
                      s = (if total < s_nBest s then s\<lparr>s_nBest := total, s_vfBest := included\<rparr>
                           else s)
                  in s\<lparr>s_nTotal := total - fst (vValue ! n), s_vfIncluded := included[n := False]\<rparr>)
               else s\<lparr>s_nTotal := total, s_vfIncluded := included\<rparr>)
         else s)"

text \<open>
  One pass over all indices, one repetition (at most two passes), and the outer loop,
  which stops early once the best total equals the target.
\<close>

definition approx_pass ::
  "(nat \<Rightarrow> bool) \<Rightarrow> valued list \<Rightarrow> int \<Rightarrow> nat \<Rightarrow> approx_state \<Rightarrow> approx_state" where
  "approx_pass rng vValue nTargetValue nPass s =
     foldl (approx_step rng vValue nTargetValue nPass) s [0..<length vValue]"

definition approx_rep :: "(nat \<Rightarrow> bool) \<Rightarrow> valued list \<Rightarrow> int \<Rightarrow> approx_state \<Rightarrow> approx_state" where
  "approx_rep rng vValue nTargetValue s =
     (let s = s\<lparr>s_vfIncluded := replicate (length vValue) False, s_nTotal := 0,
                s_fReachedTarget := False\<rparr>;
          s = approx_pass rng vValue nTargetValue 0 s
      in if s_fReachedTarget s then s else approx_pass rng vValue nTargetValue 1 s)"

fun approx_reps ::
  "(nat \<Rightarrow> bool) \<Rightarrow> valued list \<Rightarrow> int \<Rightarrow> nat \<Rightarrow> approx_state \<Rightarrow> approx_state" where
  "approx_reps rng vValue nTargetValue 0 s = s"
| "approx_reps rng vValue nTargetValue (Suc n) s =
     (if s_nBest s \<noteq> nTargetValue
      then approx_reps rng vValue nTargetValue n (approx_rep rng vValue nTargetValue s)
      else s)"

definition ApproximateBestSubset ::
  "(nat \<Rightarrow> bool) \<Rightarrow> valued list \<Rightarrow> int \<Rightarrow> int \<Rightarrow> nat \<Rightarrow> bool list \<times> int" where
  "ApproximateBestSubset rng vValue nTotalLower nTargetValue iterations =
     (let s = approx_reps rng vValue nTargetValue iterations
                \<lparr> s_vfIncluded = [], s_nTotal = 0, s_fReachedTarget = False,
                  s_nBest = nTotalLower, s_vfBest = replicate (length vValue) True, s_rand = 0 \<rparr>
      in (s_vfBest s, s_nBest s))"

text \<open>
  The stages of \<open>SelectCoinsMinConf\<close>: the scan over the shuffled candidates, the sort of
  the smaller coins in descending order of value, the one or two approximation runs (each
  with its own random stream), and the loops that fill \<open>setCoinsRet\<close> and \<open>nValueRet\<close>.
  \<open>Shuffle\<close> is the random permutation applied first; \<open>CENT\<close> is declared outside the
  sources and is a parameter. \<open>setCoinsRet\<close> is a \<open>std::set\<close>: a list without
  duplicates, filled with \<open>List.insert\<close>.
\<close>

definition MinConf_scan ::
  "int \<Rightarrow> (COutput list \<Rightarrow> COutput list) \<Rightarrow> int \<Rightarrow> nat \<Rightarrow> int \<Rightarrow> int \<Rightarrow> COutput list \<Rightarrow> scan_result" where
  "MinConf_scan CENT Shuffle nTargetValue nSpendTime nConfMine nConfTheirs vCoins =
     scan_coins CENT nTargetValue nSpendTime nConfMine nConfTheirs (Shuffle vCoins)
       (INT64_MAX, None) [] 0"

definition sort_descending :: "valued list \<Rightarrow> valued list" where
  "sort_descending vValue = rev (sort_key fst vValue)"

definition MinConf_approx ::
  "int \<Rightarrow> (nat \<Rightarrow> bool) \<Rightarrow> (nat \<Rightarrow> bool) \<Rightarrow> int \<Rightarrow> valued list \<Rightarrow> int \<Rightarrow> bool list \<times> int" where
  "MinConf_approx CENT rng1 rng2 nTargetValue vValue nTotalLower =
     (case ApproximateBestSubset rng1 vValue nTotalLower nTargetValue 1000 of
        (vfBest, nBest) \<Rightarrow>
          if nBest \<noteq> nTargetValue \<and> nTotalLower \<ge> nTargetValue + CENT
          then ApproximateBestSubset rng2 vValue nTotalLower (nTargetValue + CENT) 1000
          else (vfBest, nBest))"

definition select_all :: "valued list \<Rightarrow> coin list \<times> int" where
  "select_all vValue =
     foldl (\<lambda>ret coin. (List.insert (snd coin) (fst ret), snd ret + fst coin)) ([], 0) vValue"

definition select_best :: "valued list \<Rightarrow> bool list \<Rightarrow> coin list \<times> int" where
  "select_best vValue vfBest =
     foldl (\<lambda>ret n. if vfBest ! n
                     then (List.insert (snd (vValue ! n)) (fst ret), snd ret + fst (vValue ! n))
                     else ret) ([], 0) [0..<length vValue]"

text \<open>
  The comparison that decides between the lowest larger coin and the approximation's
  subset, as written in the code.
\<close>

definition prefer_larger :: "int \<Rightarrow> int \<Rightarrow> int \<Rightarrow> int \<Rightarrow> bool" where
  "prefer_larger CENT nTargetValue nLarger nBest =
     ((nBest \<noteq> nTargetValue \<and> nBest < nTargetValue + CENT) \<or> nLarger \<le> nBest)"

text \<open>
  \<open>SelectCoinsMinConf\<close> returns the boolean result, \<open>setCoinsRet\<close> and \<open>nValueRet\<close>.
\<close>

definition SelectCoinsMinConf ::
  "int \<Rightarrow> (COutput list \<Rightarrow> COutput list) \<Rightarrow> (nat \<Rightarrow> bool) \<Rightarrow> (nat \<Rightarrow> bool) \<Rightarrow> int \<Rightarrow> nat \<Rightarrow> int \<Rightarrow> int
     \<Rightarrow> COutput list \<Rightarrow> bool \<times> coin list \<times> int" where
  "SelectCoinsMinConf CENT Shuffle rng1 rng2 nTargetValue nSpendTime nConfMine nConfTheirs vCoins =
     (case MinConf_scan CENT Shuffle nTargetValue nSpendTime nConfMine nConfTheirs vCoins of
        Exact_match coin \<Rightarrow> (True, [snd coin], fst coin)
      | Scanned coinLowestLarger vValue nTotalLower \<Rightarrow>
          if nTotalLower = nTargetValue then
            (case select_all vValue of (setCoinsRet, nValueRet) \<Rightarrow> (True, setCoinsRet, nValueRet))
          else if nTotalLower < nTargetValue then
            (case snd coinLowestLarger of
               None \<Rightarrow> (False, [], 0)
             | Some c \<Rightarrow> (True, [c], fst coinLowestLarger))
          else
            (let sorted = sort_descending vValue in
             case MinConf_approx CENT rng1 rng2 nTargetValue sorted nTotalLower of
               (vfBest, nBest) \<Rightarrow>
                 (case snd coinLowestLarger of
                    Some c \<Rightarrow>
                      if prefer_larger CENT nTargetValue (fst coinLowestLarger) nBest
                      then (True, [c], fst coinLowestLarger)
                      else (case select_best sorted vfBest of
                              (setCoinsRet, nValueRet) \<Rightarrow> (True, setCoinsRet, nValueRet))
                  | None \<Rightarrow>
                      (case select_best sorted vfBest of
                         (setCoinsRet, nValueRet) \<Rightarrow> (True, setCoinsRet, nValueRet)))))"



text \<open>
  The total of the values that a vector of flags selects, and the invariants of the
  approximation: the best total is the total of the best subset and reaches the target.
\<close>

definition subset_sum :: "bool list \<Rightarrow> valued list \<Rightarrow> int" where
  "subset_sum vf vValue = (\<Sum>n<length vValue. if vf ! n then fst (vValue ! n) else 0)"

definition best_ok :: "valued list \<Rightarrow> int \<Rightarrow> approx_state \<Rightarrow> bool" where
  "best_ok vValue nTargetValue s =
     (length (s_vfBest s) = length vValue \<and> s_nBest s = subset_sum (s_vfBest s) vValue
      \<and> nTargetValue \<le> s_nBest s)"

definition included_ok :: "valued list \<Rightarrow> approx_state \<Rightarrow> bool" where
  "included_ok vValue s =
     (length (s_vfIncluded s) = length vValue \<and> s_nTotal s = subset_sum (s_vfIncluded s) vValue)"

text \<open>
  The smaller-coin partition as the scan collects it: eligible candidates below
  \<open>nTargetValue + CENT\<close>. \<open>larger_ok\<close> is the invariant of \<open>coinLowestLarger\<close>.
\<close>

definition mk_valued :: "COutput \<Rightarrow> valued" where
  "mk_valued out = (output_value out, (tx out, i out))"

definition lower_coins :: "int \<Rightarrow> int \<Rightarrow> nat \<Rightarrow> int \<Rightarrow> int \<Rightarrow> COutput list \<Rightarrow> COutput list" where
  "lower_coins CENT nTargetValue nSpendTime nConfMine nConfTheirs vCoins =
     filter (\<lambda>out. eligible nSpendTime nConfMine nConfTheirs out
                    \<and> output_value out < nTargetValue + CENT) vCoins"

definition larger_ok :: "int \<Rightarrow> int \<Rightarrow> int \<times> coin option \<Rightarrow> bool" where
  "larger_ok CENT nTargetValue coinLowestLarger =
     (case snd coinLowestLarger of
        None \<Rightarrow> fst coinLowestLarger = INT64_MAX
      | Some c \<Rightarrow> nTargetValue + CENT \<le> fst coinLowestLarger
                  \<and> fst coinLowestLarger = coin_value c)"

text \<open>
  The total value of a set of coins, and the outpoint (record and output index) that a
  candidate stands for.
\<close>

definition coins_total :: "coin list \<Rightarrow> int" where
  "coins_total setCoins = sum_list (map coin_value setCoins)"

definition outpoint :: "COutput \<Rightarrow> coin" where
  "outpoint out = (tx out, i out)"

text \<open>
  The rule as the specification words it: the larger coin is preferred when the
  approximation is not exact and the larger coin is at least as close to the target.
\<close>

definition claimed_prefer_larger :: "int \<Rightarrow> int \<Rightarrow> int \<Rightarrow> bool" where
  "claimed_prefer_larger nTargetValue nLarger nBest =
     (nBest \<noteq> nTargetValue \<and> \<bar>nLarger - nTargetValue\<bar> \<le> \<bar>nBest - nTargetValue\<bar>)"

text \<open>
  Concrete candidates: one confirmed record (depth 20, received from others) with the
  given output values, no shuffling, and two fixed random streams.
\<close>

definition coins_tx :: "int list \<Rightarrow> CWalletTx" where
  "coins_tx values = \<lparr> GetHash = 3,
     vout = map (\<lambda>v. \<lparr> nValue = v, scriptPubKey = ''p'' \<rparr>) values,
     nTime = 100, fFromMe = False, vfSpent = [],
     GetDepthInMainChain = 20, GetBlocksToMaturity = 0, IsCoinBase = False, IsCoinStake = False,
     IsFromMe = False, IsTrusted = True, IsFinalTx = True, AreDependenciesConfirmed = True \<rparr>"

definition coins_of :: "int list \<Rightarrow> COutput list" where
  "coins_of values =
     map (\<lambda>n. \<lparr> tx = coins_tx values, i = n, nDepth = 20 \<rparr>) [0..<length values]"

definition rng_true :: "nat \<Rightarrow> bool" where
  "rng_true k = True"

definition rng_alt :: "nat \<Rightarrow> bool" where
  "rng_alt k = even k"

definition no_shuffle :: "COutput list \<Rightarrow> COutput list" where
  "no_shuffle vCoins = vCoins"

section \<open>Coin selection: AvailableCoins and SelectCoins\<close>









section \<open>Transaction builder: CreateTransaction\<close>

text \<open>
  Contracts are declared outside the sources; the builder only asks whether the first
  contract is a message and what it burns.
\<close>

datatype ContractType = MESSAGE | OTHER_CONTRACT

































section \<open>Theorems: balance views\<close>

lemma GetStake_sum:
  "foldl (\<lambda>nTotal pcoin. if immature_stake pcoin then nTotal + GetCredit pcoin else nTotal)
       (a::int) wallet
     = a + sum_list (map GetCredit (filter immature_stake wallet))"
  by (induction wallet arbitrary: a) auto

text \<open>
  Claim C10. \<open>GetStake\<close> and \<open>GetNewMint\<close> agree on every wallet state, and both are the
  sum of the wallet credit of the coinstake records that are below maturity and in the
  main chain.
\<close>

theorem GetStake_eq_GetNewMint:
  "GetStake GetCredit wallet = GetNewMint GetCredit wallet
   \<and> GetStake GetCredit wallet = sum_list (map GetCredit (filter immature_stake wallet))"
proof -
  have "GetStake GetCredit wallet = sum_list (map GetCredit (filter immature_stake wallet))"
    using GetStake_sum [of GetCredit 0 wallet]
    by (simp add: GetStake_def immature_stake_def [abs_def])
  moreover have "GetStake GetCredit wallet = GetNewMint GetCredit wallet"
    by (simp add: GetStake_def GetNewMint_def)
  ultimately show ?thesis by simp
qed

section \<open>Theorems: Unlock\<close>

lemma Unlock_keys_no_match:
  "\<forall>mk \<in> set keys. \<not> record_matches cr pw (snd mk) \<Longrightarrow> Unlock_keys cr pw keys = None"
  by (induction keys) (auto simp: record_matches_def split: option.splits)

lemma Unlock_no_match:
  "\<forall>mk \<in> set (mapMasterKeys v). \<not> record_matches cr pw (snd mk)
   \<Longrightarrow> Unlock cr pw v = (False, v)"
  by (simp add: Unlock_def Unlock_keys_no_match)

lemma Unlock_first_match:
  assumes "IsLocked v" and "mapMasterKeys v = mk # rest"
    and "record_matches cr pw (snd mk)"
  shows "fst (Unlock cr pw v) = True"
  using assms
  by (auto simp: Unlock_def record_matches_def split: option.splits)

text \<open>
  Claim C9, evaluated at a vault with two master-key records. The passphrase
  \<open>''beta''\<close> matches the second record, but decryption of the first record fails, and
  \<open>Unlock\<close> returns false there without trying the second record: the vault stays locked.
\<close>

theorem Unlock_second_record_not_tried:
  "IsLocked two_key_vault
   \<and> record_matches toy_crypter ''beta'' (snd (mapMasterKeys two_key_vault ! 1))
   \<and> Unlock toy_crypter ''beta'' two_key_vault = (False, two_key_vault)"
  by (simp add: IsLocked_def two_key_vault_def toy_crypter_def record_matches_def Unlock_def)

section \<open>Theorems: FixSpentCoins\<close>

lemma IsSpent_MarkSpent:
  "n < length (vout p) \<Longrightarrow> j < length (vout p) \<Longrightarrow>
   IsSpent (MarkSpent p n) j = (if j = n then True else IsSpent p j)"
  by (auto simp: IsSpent_def MarkSpent_def resize_def nth_append nth_list_update)

lemma IsSpent_MarkUnspent:
  "n < length (vout p) \<Longrightarrow> j < length (vout p) \<Longrightarrow>
   IsSpent (MarkUnspent p n) j = (if j = n then False else IsSpent p j)"
  by (auto simp: IsSpent_def MarkUnspent_def resize_def nth_append nth_list_update)

lemma Mark_fields [simp]:
  "vout (MarkSpent p n) = vout p" "vout (MarkUnspent p n) = vout p"
  "GetHash (MarkSpent p n) = GetHash p" "GetHash (MarkUnspent p n) = GetHash p"
  by (simp_all add: MarkSpent_def MarkUnspent_def)

lemma output_synced_id:
  "synced IsMine txindex p n \<Longrightarrow> FixSpentCoins_output IsMine f txindex (p, m, b) n = (p, m, b)"
  by (auto simp: synced_def FixSpentCoins_output_def index_spent_def)

lemma outputs_synced_id:
  "\<forall>n \<in> set ns. synced IsMine txindex p n \<Longrightarrow>
   foldl (FixSpentCoins_output IsMine f txindex) (p, m, b) ns = (p, m, b)"
  by (induction ns) (auto simp: output_synced_id)

lemma output_repair:
  assumes "n < length (vout p)"
    and "FixSpentCoins_output IsMine False txindex (p, m, b) n = (p', m', b')"
  shows "vout p' = vout p \<and> GetHash p' = GetHash p \<and> synced IsMine txindex p' n
         \<and> (\<forall>j < length (vout p). j \<noteq> n \<longrightarrow> IsSpent p' j = IsSpent p j)"
  using assms
  by (auto simp: FixSpentCoins_output_def synced_def index_spent_def
        IsSpent_MarkSpent IsSpent_MarkUnspent split: if_splits)

lemma outputs_repair:
  assumes "k \<le> length (vout p)"
    and "foldl (FixSpentCoins_output IsMine False txindex) (p, m, b) [0..<k] = (p', m', b')"
  shows "vout p' = vout p \<and> GetHash p' = GetHash p
         \<and> (\<forall>j < k. synced IsMine txindex p' j)
         \<and> (\<forall>j < length (vout p). k \<le> j \<longrightarrow> IsSpent p' j = IsSpent p j)"
  using assms
proof (induction k arbitrary: p' m' b')
  case 0
  then show ?case by simp
next
  case (Suc k)
  obtain q mq bq where q: "foldl (FixSpentCoins_output IsMine False txindex) (p, m, b) [0..<k] = (q, mq, bq)"
    by (metis prod_cases3)
  from Suc.prems(1) have k: "k \<le> length (vout p)" "k < length (vout p)" by simp_all
  note ih = Suc.IH [OF k(1) q]
  from Suc.prems(2) q have step: "FixSpentCoins_output IsMine False txindex (q, mq, bq) k = (p', m', b')"
    by simp
  from ih k have kq: "k < length (vout q)" by simp
  note st = output_repair [OF kq step]
  have "\<forall>j < Suc k. synced IsMine txindex p' j"
  proof (intro allI impI)
    fix j assume j: "j < Suc k"
    show "synced IsMine txindex p' j"
    proof (cases "j = k")
      case True
      with st show ?thesis by simp
    next
      case False
      with j have jk: "j < k" by simp
      with ih have "synced IsMine txindex q j" by simp
      moreover from st jk k ih have "IsSpent p' j = IsSpent q j" by simp
      moreover from st have "vout p' = vout q" by simp
      ultimately show ?thesis by (simp add: synced_def)
    qed
  qed
  moreover have "\<forall>j < length (vout p). Suc k \<le> j \<longrightarrow> IsSpent p' j = IsSpent p j"
    using st ih by auto
  ultimately show ?case using st ih by simp
qed

lemma loop_idem:
  "FixSpentCoins_loop IsMine ReadTxIndex False wallet m b = (wallet', m', b')
   \<Longrightarrow> FixSpentCoins_loop IsMine ReadTxIndex f wallet' m2 b2 = (wallet', m2, b2)"
proof (induction wallet arbitrary: m b wallet' m' b' m2 b2)
  case Nil
  then show ?case by simp
next
  case (Cons pcoin rest)
  show ?case
  proof (cases "ReadTxIndex (GetHash pcoin)")
    case None
    with Cons.prems obtain rest' where
      r: "FixSpentCoins_loop IsMine ReadTxIndex False rest m b = (rest', m', b')"
      and w: "wallet' = pcoin # rest'"
      by (auto split: prod.splits)
    from Cons.IH [OF r] None w show ?thesis by simp
  next
    case (Some txindex)
    with Cons.prems obtain pcoin' m1 b1 rest' where
      p: "foldl (FixSpentCoins_output IsMine False txindex) (pcoin, m, b) [0..<length (vout pcoin)]
            = (pcoin', m1, b1)"
      and r: "FixSpentCoins_loop IsMine ReadTxIndex False rest m1 b1 = (rest', m', b')"
      and w: "wallet' = pcoin' # rest'"
      by (auto split: prod.splits)
    from outputs_repair [OF le_refl p]
    have h: "GetHash pcoin' = GetHash pcoin" and v: "vout pcoin' = vout pcoin"
      and s: "\<forall>j < length (vout pcoin). synced IsMine txindex pcoin' j"
      by simp_all
    have "foldl (FixSpentCoins_output IsMine f txindex) (pcoin', m2, b2) [0..<length (vout pcoin')]
            = (pcoin', m2, b2)"
      using s v by (intro outputs_synced_id) simp
    with Cons.IH [OF r] Some h w show ?thesis by simp
  qed
qed

text \<open>
  Claim C8. After a run of \<open>FixSpentCoins\<close> in repair mode, a second run on the repaired
  ledger against the same index (in either mode) changes nothing and reports a mismatch
  count of 0 and a value in question of 0.
\<close>

theorem FixSpentCoins_idempotent:
  "FixSpentCoins IsMine ReadTxIndex (fst (FixSpentCoins IsMine ReadTxIndex wallet False)) fCheckOnly
     = (fst (FixSpentCoins IsMine ReadTxIndex wallet False), 0, 0)"
proof -
  obtain w' m' b' where r: "FixSpentCoins IsMine ReadTxIndex wallet False = (w', m', b')"
    by (metis prod_cases3)
  then show ?thesis
    using loop_idem [of IsMine ReadTxIndex wallet 0 0 w' m' b' fCheckOnly 0 0]
    by (simp add: FixSpentCoins_def)
qed
lemma FixSpentCoins_example:
  "FixSpentCoins all_mine example_index [example_wtx] False
     = ([example_wtx\<lparr>vfSpent := [False, True]\<rparr>], 2, 30)"
  by (simp add: FixSpentCoins_def FixSpentCoins_output_def example_wtx_def example_index_def
        all_mine_def IsSpent_def IsNull_def MarkSpent_def MarkUnspent_def resize_def upt_rec)

section \<open>Theorems: staking selection\<close>














section \<open>Theorems: the subset-sum approximation\<close>

lemma subset_sum_set:
  assumes "n < length vValue" "length vf = length vValue" "\<not> vf ! n"
  shows "subset_sum (vf[n := True]) vValue = subset_sum vf vValue + fst (vValue ! n)"
proof -
  have "subset_sum (vf[n := True]) vValue
        = (\<Sum>k<length vValue. (if vf ! k then fst (vValue ! k) else 0)
                                + (if k = n then fst (vValue ! n) else 0))"
    unfolding subset_sum_def using assms
    by (intro sum.cong) (auto simp: nth_list_update)
  also have "\<dots> = subset_sum vf vValue + (\<Sum>k<length vValue. if k = n then fst (vValue ! n) else 0)"
    by (simp add: sum.distrib subset_sum_def)
  also have "(\<Sum>k<length vValue. if k = n then fst (vValue ! n) else 0) = fst (vValue ! n)"
    using assms(1) by (simp add: sum.delta)
  finally show ?thesis .
qed

lemma subset_sum_none: "subset_sum (replicate (length vValue) False) vValue = 0"
  by (simp add: subset_sum_def)

lemma subset_sum_all: "subset_sum (replicate (length vValue) True) vValue = sum_list (map fst vValue)"
proof -
  have "subset_sum (replicate (length vValue) True) vValue = (\<Sum>n<length vValue. fst (vValue ! n))"
    by (simp add: subset_sum_def)
  also have "\<dots> = (\<Sum>n<length (map fst vValue). map fst vValue ! n)"
    by simp
  also have "\<dots> = sum_list (map fst vValue)"
    by (simp only: sum_list_sum_nth atLeast0LessThan)
  finally show ?thesis .
qed

lemma approx_step_ok:
  assumes b: "best_ok vValue T s" and inc: "included_ok vValue s" and n: "n < length vValue"
    and fresh: "nPass = 0 \<longrightarrow> \<not> s_vfIncluded s ! n"
  shows "best_ok vValue T (approx_step rng vValue T nPass s n)"
    and "included_ok vValue (approx_step rng vValue T nPass s n)"
    and "\<forall>j. j \<noteq> n \<longrightarrow> s_vfIncluded (approx_step rng vValue T nPass s n) ! j = s_vfIncluded s ! j"
proof -
  let ?pick = "if nPass = 0 then rng (s_rand s) else \<not> s_vfIncluded s ! n"
  have len: "length (s_vfIncluded s) = length vValue" using inc by (simp add: included_ok_def)
  show "best_ok vValue T (approx_step rng vValue T nPass s n)"
  proof (cases ?pick)
    case False
    then show ?thesis using b by (auto simp: approx_step_def best_ok_def Let_def)
  next
    case True
    with fresh have f: "\<not> s_vfIncluded s ! n" by (auto split: if_splits)
    from subset_sum_set [OF n len f] inc
    have "subset_sum ((s_vfIncluded s)[n := True]) vValue = s_nTotal s + fst (vValue ! n)"
      by (simp add: included_ok_def)
    with True b len show ?thesis
      by (auto simp: approx_step_def best_ok_def Let_def)
  qed
  show "included_ok vValue (approx_step rng vValue T nPass s n)"
  proof (cases ?pick)
    case False
    then show ?thesis using inc by (auto simp: approx_step_def included_ok_def Let_def)
  next
    case True
    with fresh have f: "\<not> s_vfIncluded s ! n" by (auto split: if_splits)
    then have same: "(s_vfIncluded s)[n := False] = s_vfIncluded s"
      by (metis list_update_id)
    from subset_sum_set [OF n len f] inc
    have "subset_sum ((s_vfIncluded s)[n := True]) vValue = s_nTotal s + fst (vValue ! n)"
      by (simp add: included_ok_def)
    with True inc len same show ?thesis
      by (auto simp: approx_step_def included_ok_def Let_def)
  qed
  show "\<forall>j. j \<noteq> n \<longrightarrow> s_vfIncluded (approx_step rng vValue T nPass s n) ! j = s_vfIncluded s ! j"
    by (auto simp: approx_step_def Let_def)
qed

lemma approx_pass_prefix_ok:
  assumes "best_ok vValue T s" "included_ok vValue s" "k \<le> length vValue"
    and "nPass = 0 \<longrightarrow> (\<forall>j < length vValue. \<not> s_vfIncluded s ! j)"
  shows "best_ok vValue T (foldl (approx_step rng vValue T nPass) s [0..<k])
       \<and> included_ok vValue (foldl (approx_step rng vValue T nPass) s [0..<k])
       \<and> (nPass = 0 \<longrightarrow> (\<forall>j < length vValue. k \<le> j \<longrightarrow>
             \<not> s_vfIncluded (foldl (approx_step rng vValue T nPass) s [0..<k]) ! j))"
  using assms(3)
proof (induction k)
  case 0
  then show ?case using assms by simp
next
  case (Suc k)
  let ?s = "foldl (approx_step rng vValue T nPass) s [0..<k]"
  from Suc have k: "k < length vValue" and ih: "best_ok vValue T ?s" "included_ok vValue ?s"
    "nPass = 0 \<longrightarrow> (\<forall>j < length vValue. k \<le> j \<longrightarrow> \<not> s_vfIncluded ?s ! j)"
    by simp_all
  from ih(3) k have fresh: "nPass = 0 \<longrightarrow> \<not> s_vfIncluded ?s ! k" by simp
  note st = approx_step_ok [OF ih(1) ih(2) k fresh, of rng]
  have "nPass = 0 \<longrightarrow> (\<forall>j < length vValue. Suc k \<le> j \<longrightarrow>
          \<not> s_vfIncluded (approx_step rng vValue T nPass ?s k) ! j)"
    using st(3) ih(3) by auto
  with st(1) st(2) show ?case by simp
qed

lemma approx_pass_ok:
  assumes "best_ok vValue T s" "included_ok vValue s"
    and "nPass = 0 \<longrightarrow> (\<forall>j < length vValue. \<not> s_vfIncluded s ! j)"
  shows "best_ok vValue T (approx_pass rng vValue T nPass s)"
    and "included_ok vValue (approx_pass rng vValue T nPass s)"
  using approx_pass_prefix_ok [OF assms(1) assms(2) le_refl assms(3), of rng]
  by (simp_all add: approx_pass_def)

lemma approx_rep_ok:
  assumes "best_ok vValue T s"
  shows "best_ok vValue T (approx_rep rng vValue T s)"
proof -
  let ?s0 = "s\<lparr>s_vfIncluded := replicate (length vValue) False, s_nTotal := 0,
                s_fReachedTarget := False\<rparr>"
  have b0: "best_ok vValue T ?s0" using assms by (simp add: best_ok_def)
  have i0: "included_ok vValue ?s0" by (simp add: included_ok_def subset_sum_none)
  have f0: "(0::nat) = 0 \<longrightarrow> (\<forall>j < length vValue. \<not> s_vfIncluded ?s0 ! j)" by simp
  note p0 = approx_pass_ok [OF b0 i0 f0, of rng]
  have f1: "(1::nat) = 0 \<longrightarrow> (\<forall>j < length vValue. \<not> s_vfIncluded (approx_pass rng vValue T 0 ?s0) ! j)"
    by simp
  note p1 = approx_pass_ok [OF p0(1) p0(2) f1, of rng]
  show ?thesis using p0(1) p1(1) by (simp add: approx_rep_def Let_def)
qed

lemma approx_reps_ok:
  "best_ok vValue T s \<Longrightarrow> best_ok vValue T (approx_reps rng vValue T n s)"
  by (induction n arbitrary: s) (simp_all add: approx_rep_ok)

lemma ApproximateBestSubset_ok:
  assumes "nTotalLower = sum_list (map fst vValue)" "nTargetValue \<le> nTotalLower"
    and "ApproximateBestSubset rng vValue nTotalLower nTargetValue iterations = (vfBest, nBest)"
  shows "length vfBest = length vValue \<and> nBest = subset_sum vfBest vValue \<and> nTargetValue \<le> nBest"
proof -
  let ?s0 = "\<lparr> s_vfIncluded = [], s_nTotal = 0, s_fReachedTarget = False,
               s_nBest = nTotalLower, s_vfBest = replicate (length vValue) True, s_rand = 0 \<rparr>"
  have "best_ok vValue nTargetValue ?s0"
    using assms(1,2) by (simp add: best_ok_def subset_sum_all)
  from approx_reps_ok [OF this, of rng iterations] assms(3) show ?thesis
    by (auto simp: ApproximateBestSubset_def best_ok_def Let_def)
qed

lemma select_best_prefix:
  "k \<le> length vValue \<Longrightarrow>
   snd (foldl (\<lambda>ret n. if vfBest ! n
                     then (List.insert (snd (vValue ! n)) (fst ret), snd ret + fst (vValue ! n))
                     else ret) (S, v::int) [0..<k])
     = v + (\<Sum>n<k. if vfBest ! n then fst (vValue ! n) else 0)"
  by (induction k) (simp_all add: lessThan_Suc)

lemma select_best_value: "snd (select_best vValue vfBest) = subset_sum vfBest vValue"
  using select_best_prefix [of "length vValue" vValue vfBest "[]" 0]
  by (simp add: select_best_def subset_sum_def)

lemma select_all_value_gen:
  "snd (foldl (\<lambda>ret coin. (List.insert (snd coin) (fst ret), snd ret + fst coin)) (S, v::int) vValue)
     = v + sum_list (map fst vValue)"
  by (induction vValue arbitrary: S v) simp_all

lemma select_all_value: "snd (select_all vValue) = sum_list (map fst vValue)"
  using select_all_value_gen [of "[]" 0 vValue] by (simp add: select_all_def)

lemma sort_descending_sum: "sum_list (map fst (sort_descending vValue)) = sum_list (map fst vValue)"
proof -
  have "mset (sort_descending vValue) = mset vValue" by (simp add: sort_descending_def)
  then have "mset (map fst (sort_descending vValue)) = mset (map fst vValue)" by simp
  then have "sum_mset (mset (map fst (sort_descending vValue))) = sum_mset (mset (map fst vValue))"
    by (rule arg_cong)
  then show ?thesis by (simp only: sum_mset_sum_list)
qed

lemma MinConf_approx_ok:
  assumes "nTotalLower = sum_list (map fst vValue)" "nTargetValue \<le> nTotalLower" "0 \<le> CENT"
    and "MinConf_approx CENT rng1 rng2 nTargetValue vValue nTotalLower = (vfBest, nBest)"
  shows "nBest = subset_sum vfBest vValue \<and> nTargetValue \<le> nBest"
proof -
  obtain vf1 nb1 where a1: "ApproximateBestSubset rng1 vValue nTotalLower nTargetValue 1000 = (vf1, nb1)"
    by (cases "ApproximateBestSubset rng1 vValue nTotalLower nTargetValue 1000")
  note ok1 = ApproximateBestSubset_ok [OF assms(1) assms(2) a1]
  show ?thesis
  proof (cases "nb1 \<noteq> nTargetValue \<and> nTotalLower \<ge> nTargetValue + CENT")
    case True
    with assms(4) a1
    have a2: "ApproximateBestSubset rng2 vValue nTotalLower (nTargetValue + CENT) 1000 = (vfBest, nBest)"
      by (simp add: MinConf_approx_def)
    from True have "nTargetValue + CENT \<le> nTotalLower" by simp
    from ApproximateBestSubset_ok [OF assms(1) this a2] assms(3) show ?thesis by simp
  next
    case False
    with assms(4) a1 have "vf1 = vfBest" "nb1 = nBest" by (auto simp: MinConf_approx_def)
    with ok1 show ?thesis by simp
  qed
qed

section \<open>Theorems: coin selection\<close>

lemma scan_coins_exact:
  "\<exists>out \<in> set L. eligible nSpendTime nConfMine nConfTheirs out \<and> output_value out = T \<Longrightarrow>
   \<exists>c. scan_coins CENT T nSpendTime nConfMine nConfTheirs L cll vValue ntl = Exact_match (T, c)
       \<and> coin_value c = T"
proof (induction L arbitrary: cll vValue ntl)
  case Nil
  then show ?case by simp
next
  case (Cons out L)
  show ?case
  proof (cases "eligible nSpendTime nConfMine nConfTheirs out")
    case False
    with Cons.prems have "\<exists>out \<in> set L. eligible nSpendTime nConfMine nConfTheirs out \<and> output_value out = T"
      by auto
    from Cons.IH [OF this] False show ?thesis
      by (auto simp: eligible_def Let_def)
  next
    case True
    show ?thesis
    proof (cases "output_value out = T")
      case eq: True
      with True show ?thesis by (simp add: eligible_def Let_def output_value_def coin_value_def)
    next
      case neq: False
      with Cons.prems have "\<exists>out \<in> set L. eligible nSpendTime nConfMine nConfTheirs out \<and> output_value out = T"
        by auto
      from Cons.IH [OF this] True neq show ?thesis
        by (simp add: eligible_def Let_def output_value_def)
    qed
  qed
qed

lemma scan_coins_no_exact:
  assumes "\<forall>out \<in> set L. eligible nSpendTime nConfMine nConfTheirs out \<longrightarrow> output_value out \<noteq> T"
    and "larger_ok CENT T cll"
  shows "\<exists>cll'. scan_coins CENT T nSpendTime nConfMine nConfTheirs L cll vValue ntl
           = Scanned cll'
               (vValue @ map mk_valued (lower_coins CENT T nSpendTime nConfMine nConfTheirs L))
               (ntl + sum_list (map output_value (lower_coins CENT T nSpendTime nConfMine nConfTheirs L)))
         \<and> larger_ok CENT T cll'
         \<and> (snd cll' = None \<longrightarrow> snd cll = None
              \<and> (\<forall>out \<in> set L. eligible nSpendTime nConfMine nConfTheirs out \<longrightarrow>
                    output_value out < T + CENT \<or> INT64_MAX \<le> output_value out))"
  using assms
proof (induction L arbitrary: cll vValue ntl)
  case Nil
  then show ?case by (simp add: lower_coins_def)
next
  case (Cons out L)
  from Cons.prems(1)
  have rest: "\<forall>out \<in> set L. eligible nSpendTime nConfMine nConfTheirs out \<longrightarrow> output_value out \<noteq> T"
    by simp
  show ?case
  proof (cases "eligible nSpendTime nConfMine nConfTheirs out")
    case False
    from Cons.IH [OF rest Cons.prems(2), of vValue ntl] False show ?thesis
      by (auto simp: eligible_def Let_def lower_coins_def)
  next
    case True
    with Cons.prems(1) have neq: "output_value out \<noteq> T" by simp
    show ?thesis
    proof (cases "output_value out < T + CENT")
      case low: True
      from Cons.IH [OF rest Cons.prems(2), of "vValue @ [mk_valued out]" "ntl + output_value out"]
        True neq low
      show ?thesis
        by (auto simp: eligible_def Let_def lower_coins_def output_value_def mk_valued_def)
    next
      case high: False
      show ?thesis
      proof (cases "output_value out < fst cll")
        case better: True
        from high have ok: "larger_ok CENT T (output_value out, Some (tx out, i out))"
          by (simp add: larger_ok_def output_value_def coin_value_def)
        from Cons.IH [OF rest ok, of vValue ntl] True neq high better
        show ?thesis
          by (auto simp: eligible_def Let_def lower_coins_def output_value_def)
      next
        case worse: False
        have here: "snd cll = None \<longrightarrow> INT64_MAX \<le> output_value out"
          using worse Cons.prems(2) by (auto simp: larger_ok_def split: option.splits)
        from Cons.IH [OF rest Cons.prems(2), of vValue ntl] True neq high worse here
        show ?thesis
          by (auto simp: eligible_def Let_def lower_coins_def output_value_def)
      qed
    qed
  qed
qed

lemma perm_sum_filter:
  assumes "mset L = mset L'"
  shows "sum_list (map f (filter P L)) = (sum_list (map f (filter P L')) :: int)"
proof -
  have "mset (map f (filter P L)) = mset (map f (filter P L'))"
    using assms by simp
  then have "sum_mset (mset (map f (filter P L))) = sum_mset (mset (map f (filter P L')))"
    by (rule arg_cong)
  then show ?thesis by (simp only: sum_mset_sum_list)
qed

lemma map_fst_mk_valued: "map fst (map mk_valued L) = map output_value L"
  by (simp add: mk_valued_def)

text \<open>The outcome of the scan in \<open>SelectCoinsMinConf\<close>, read off the candidate list.\<close>

lemma MinConf_scan_cases:
  assumes perm: "mset (Shuffle vCoins) = mset vCoins"
  shows "(\<exists>out \<in> set vCoins. eligible nSpendTime nConfMine nConfTheirs out \<and> output_value out = T)
         \<and> (\<exists>c. MinConf_scan CENT Shuffle T nSpendTime nConfMine nConfTheirs vCoins = Exact_match (T, c)
                \<and> coin_value c = T)
       \<or> (\<forall>out \<in> set vCoins. eligible nSpendTime nConfMine nConfTheirs out \<longrightarrow> output_value out \<noteq> T)
         \<and> (\<exists>cll vValue.
               MinConf_scan CENT Shuffle T nSpendTime nConfMine nConfTheirs vCoins
                 = Scanned cll vValue
                     (sum_list (map output_value
                        (lower_coins CENT T nSpendTime nConfMine nConfTheirs vCoins)))
               \<and> vValue = map mk_valued
                             (lower_coins CENT T nSpendTime nConfMine nConfTheirs (Shuffle vCoins))
               \<and> sum_list (map fst vValue)
                   = sum_list (map output_value
                        (lower_coins CENT T nSpendTime nConfMine nConfTheirs vCoins))
               \<and> larger_ok CENT T cll
               \<and> (snd cll = None \<longrightarrow>
                    (\<forall>out \<in> set vCoins. eligible nSpendTime nConfMine nConfTheirs out \<longrightarrow>
                       output_value out < T + CENT \<or> INT64_MAX \<le> output_value out)))"
proof (cases "\<exists>out \<in> set vCoins. eligible nSpendTime nConfMine nConfTheirs out \<and> output_value out = T")
  case True
  from perm have s: "set (Shuffle vCoins) = set vCoins" by (rule mset_eq_setD)
  with True have "\<exists>out \<in> set (Shuffle vCoins). eligible nSpendTime nConfMine nConfTheirs out \<and> output_value out = T"
    by simp
  from scan_coins_exact [OF this] True show ?thesis by (simp add: MinConf_scan_def)
next
  case False
  from perm have s: "set (Shuffle vCoins) = set vCoins" by (rule mset_eq_setD)
  with False have ne: "\<forall>out \<in> set (Shuffle vCoins). eligible nSpendTime nConfMine nConfTheirs out \<longrightarrow> output_value out \<noteq> T"
    by simp
  have l0: "larger_ok CENT T (INT64_MAX, None)" by (simp add: larger_ok_def)
  have sums: "sum_list (map output_value (lower_coins CENT T nSpendTime nConfMine nConfTheirs (Shuffle vCoins)))
            = sum_list (map output_value (lower_coins CENT T nSpendTime nConfMine nConfTheirs vCoins))"
    unfolding lower_coins_def by (rule perm_sum_filter [OF perm])
  from scan_coins_no_exact [OF ne l0, of "[]" 0] obtain cll' where
    sc: "scan_coins CENT T nSpendTime nConfMine nConfTheirs (Shuffle vCoins) (INT64_MAX, None) [] 0
           = Scanned cll'
               (map mk_valued (lower_coins CENT T nSpendTime nConfMine nConfTheirs (Shuffle vCoins)))
               (sum_list (map output_value (lower_coins CENT T nSpendTime nConfMine nConfTheirs (Shuffle vCoins))))"
    and ok: "larger_ok CENT T cll'"
    and none: "snd cll' = None \<longrightarrow>
                (\<forall>out \<in> set (Shuffle vCoins). eligible nSpendTime nConfMine nConfTheirs out \<longrightarrow>
                    output_value out < T + CENT \<or> INT64_MAX \<le> output_value out)"
    by auto
  have "sum_list (map fst (map mk_valued (lower_coins CENT T nSpendTime nConfMine nConfTheirs (Shuffle vCoins))))
          = sum_list (map output_value (lower_coins CENT T nSpendTime nConfMine nConfTheirs vCoins))"
    by (simp only: map_fst_mk_valued sums)
  with sc ok none s sums False show ?thesis
    unfolding MinConf_scan_def by auto
qed





lemma coins_of_3:
  "coins_of [a, b, c] =
     [\<lparr> tx = coins_tx [a, b, c], i = 0, nDepth = 20 \<rparr>,
      \<lparr> tx = coins_tx [a, b, c], i = 1, nDepth = 20 \<rparr>,
      \<lparr> tx = coins_tx [a, b, c], i = 2, nDepth = 20 \<rparr>]"
  by (simp add: coins_of_def upt_rec)



lemma insert_loop_total:
  assumes "distinct (map snd xs)" "\<forall>p \<in> set xs. fst p = coin_value (snd p)"
    and "distinct S" "set S \<inter> snd ` set xs = {}" "coins_total S = v"
  shows "coins_total (fst (foldl (\<lambda>ret coin. (List.insert (snd coin) (fst ret), snd ret + fst coin))
                             (S, v) xs))
           = snd (foldl (\<lambda>ret coin. (List.insert (snd coin) (fst ret), snd ret + fst coin)) (S, v) xs)
       \<and> distinct (fst (foldl (\<lambda>ret coin. (List.insert (snd coin) (fst ret), snd ret + fst coin))
                             (S, v) xs))"
  using assms
proof (induction xs arbitrary: S v)
  case Nil
  then show ?case by simp
next
  case (Cons x xs)
  from Cons.prems(4) have new: "snd x \<notin> set S" by auto
  then have ins: "List.insert (snd x) S = snd x # S" by simp
  have 1: "distinct (map snd xs)" using Cons.prems(1) by simp
  have 2: "\<forall>p \<in> set xs. fst p = coin_value (snd p)" using Cons.prems(2) by simp
  have 3: "distinct (snd x # S)" using new Cons.prems(3) by simp
  have 4: "set (snd x # S) \<inter> snd ` set xs = {}" using Cons.prems(1,4) by auto
  have 5: "coins_total (snd x # S) = v + fst x"
    using Cons.prems(2,5) by (simp add: coins_total_def)
  from Cons.IH [OF 1 2 3 4 5] show ?case by (simp add: ins)
qed

lemma select_all_total:
  assumes "distinct (map snd vValue)" "\<forall>p \<in> set vValue. fst p = coin_value (snd p)"
  shows "coins_total (fst (select_all vValue)) = snd (select_all vValue)"
  using insert_loop_total [OF assms, of "[]" 0]
  by (simp add: select_all_def coins_total_def)

lemma select_best_as_insert_loop:
  "foldl (\<lambda>ret n. if vfBest ! n
                   then (List.insert (snd (vValue ! n)) (fst ret), snd ret + fst (vValue ! n))
                   else ret) r ns
     = foldl (\<lambda>ret coin. (List.insert (snd coin) (fst ret), snd ret + fst coin)) r
         (map (\<lambda>n. vValue ! n) (filter (\<lambda>n. vfBest ! n) ns))"
  by (induction ns arbitrary: r) simp_all

lemma select_best_total:
  assumes d: "distinct (map snd vValue)" and ok: "\<forall>p \<in> set vValue. fst p = coin_value (snd p)"
  shows "coins_total (fst (select_best vValue vfBest)) = snd (select_best vValue vfBest)"
proof -
  let ?ns = "filter (\<lambda>n. vfBest ! n) [0..<length vValue]"
  let ?picked = "map (\<lambda>n. vValue ! n) ?ns"
  have inj: "inj_on (\<lambda>n. map snd vValue ! n) (set ?ns)"
    using d by (intro inj_on_nth) auto
  have "map (\<lambda>n. snd (vValue ! n)) ?ns = map (\<lambda>n. map snd vValue ! n) ?ns"
    by (rule map_cong) auto
  then have eq: "map snd ?picked = map (\<lambda>n. map snd vValue ! n) ?ns"
    by (simp add: comp_def)
  have "distinct (map (\<lambda>n. map snd vValue ! n) ?ns)"
    using inj by (simp add: distinct_map)
  then have 1: "distinct (map snd ?picked)" by (simp only: eq)
  have 2: "\<forall>p \<in> set ?picked. fst p = coin_value (snd p)" using ok by auto
  from insert_loop_total [OF 1 2, of "[]" 0] show ?thesis
    by (simp add: select_best_def select_best_as_insert_loop coins_total_def)
qed


lemma perm_distinct_map:
  assumes "mset L = mset L'" "distinct (map f L')"
  shows "distinct (map f L)"
proof -
  from assms(1) have "mset (map f L) = mset (map f L')" by simp
  with assms(2) show ?thesis by (metis mset_eq_imp_distinct_iff)
qed


lemma lower_valued:
  assumes "distinct (map outpoint L)"
  shows "distinct (map snd (map mk_valued (lower_coins CENT T nSpendTime nConfMine nConfTheirs L)))"
    and "\<forall>p \<in> set (map mk_valued (lower_coins CENT T nSpendTime nConfMine nConfTheirs L)).
           fst p = coin_value (snd p)"
proof -
  have eq: "map snd (map mk_valued (lower_coins CENT T nSpendTime nConfMine nConfTheirs L))
          = map outpoint (lower_coins CENT T nSpendTime nConfMine nConfTheirs L)"
    by (simp add: mk_valued_def outpoint_def)
  have "distinct (map outpoint (lower_coins CENT T nSpendTime nConfMine nConfTheirs L))"
    unfolding lower_coins_def using assms by (rule distinct_map_filter)
  then show "distinct (map snd (map mk_valued (lower_coins CENT T nSpendTime nConfMine nConfTheirs L)))"
    by (simp only: eq)
  show "\<forall>p \<in> set (map mk_valued (lower_coins CENT T nSpendTime nConfMine nConfTheirs L)).
           fst p = coin_value (snd p)"
    by (auto simp: mk_valued_def coin_value_def output_value_def)
qed

lemma sort_descending_valued:
  assumes "distinct (map snd vValue)" "\<forall>p \<in> set vValue. fst p = coin_value (snd p)"
  shows "distinct (map snd (sort_descending vValue))"
    and "\<forall>p \<in> set (sort_descending vValue). fst p = coin_value (snd p)"
proof -
  have m: "mset (sort_descending vValue) = mset vValue" by (simp add: sort_descending_def)
  from perm_distinct_map [OF m assms(1)] show "distinct (map snd (sort_descending vValue))" .
  from m have "set (sort_descending vValue) = set vValue" by (rule mset_eq_setD)
  with assms(2) show "\<forall>p \<in> set (sort_descending vValue). fst p = coin_value (snd p)" by simp
qed

lemma SelectCoinsMinConf_total:
  assumes perm: "mset (Shuffle vCoins) = mset vCoins"
    and dist: "distinct (map outpoint vCoins)"
  shows "coins_total (fst (snd (SelectCoinsMinConf CENT Shuffle rng1 rng2 T nSpendTime nConfMine
                                  nConfTheirs vCoins)))
           = snd (snd (SelectCoinsMinConf CENT Shuffle rng1 rng2 T nSpendTime nConfMine nConfTheirs
                         vCoins))"
  using MinConf_scan_cases [where Shuffle = Shuffle and vCoins = vCoins and T = T and CENT = CENT
      and nSpendTime = nSpendTime and nConfMine = nConfMine and nConfTheirs = nConfTheirs, OF perm]
proof (elim disjE conjE exE)
  fix c
  assume "MinConf_scan CENT Shuffle T nSpendTime nConfMine nConfTheirs vCoins = Exact_match (T, c)"
    and "coin_value c = T"
  then show ?thesis by (simp add: SelectCoinsMinConf_def coins_total_def)
next
  fix cll vValue
  let ?ntl = "sum_list (map output_value (lower_coins CENT T nSpendTime nConfMine nConfTheirs vCoins))"
  assume sc: "MinConf_scan CENT Shuffle T nSpendTime nConfMine nConfTheirs vCoins = Scanned cll vValue ?ntl"
    and vv: "vValue = map mk_valued (lower_coins CENT T nSpendTime nConfMine nConfTheirs (Shuffle vCoins))"
    and ok: "larger_ok CENT T cll"
  from perm_distinct_map [OF perm dist] have ds: "distinct (map outpoint (Shuffle vCoins))" .
  from lower_valued [OF ds, of CENT T nSpendTime nConfMine nConfTheirs] vv
  have d: "distinct (map snd vValue)" and v: "\<forall>p \<in> set vValue. fst p = coin_value (snd p)"
    by simp_all
  note all = select_all_total [OF d v]
  note best = select_best_total [OF sort_descending_valued [OF d v]]
  have large: "snd cll = Some c \<Longrightarrow> coins_total [c] = fst cll" for c
    using ok by (simp add: larger_ok_def coins_total_def)
  have empty: "coins_total [] = 0" by (simp add: coins_total_def)
  obtain Sa va where sa: "select_all vValue = (Sa, va)" by (cases "select_all vValue")
  with all have ta: "coins_total Sa = va" by simp
  obtain vfBest nBest where
    ap: "MinConf_approx CENT rng1 rng2 T (sort_descending vValue) ?ntl = (vfBest, nBest)"
    by (cases "MinConf_approx CENT rng1 rng2 T (sort_descending vValue) ?ntl")
  obtain Sb vb where sb: "select_best (sort_descending vValue) vfBest = (Sb, vb)"
    by (cases "select_best (sort_descending vValue) vfBest")
  with best [of vfBest] have tb: "coins_total Sb = vb" by simp
  show ?thesis
  proof (cases "snd cll")
    case None
    with sc sa ta ap sb tb empty show ?thesis
      by (simp add: SelectCoinsMinConf_def Let_def)
  next
    case (Some c)
    with sc sa ta ap sb tb large [OF Some] show ?thesis
      by (simp add: SelectCoinsMinConf_def Let_def)
  qed
qed




text \<open>
  Claim C2. If some eligible candidate's value equals the target, or the values collected
  into the smaller-coin partition (eligible candidates below \<open>nTargetValue + CENT\<close>) sum
  exactly to the target, \<open>SelectCoinsMinConf\<close> returns true with \<open>nValueRet\<close> equal to the
  target, and the returned set of coins has that total value. The candidates are distinct
  and the shuffle permutes its argument.
\<close>

theorem exact_match_no_change:
  assumes shuffle: "\<forall>xs. mset (Shuffle xs) = mset xs"
    and dist: "distinct (map outpoint vCoins)"
    and exact: "(\<exists>out \<in> set vCoins. eligible nSpendTime nConfMine nConfTheirs out
                    \<and> output_value out = nTargetValue)
                \<or> sum_list (map output_value
                      (lower_coins CENT nTargetValue nSpendTime nConfMine nConfTheirs vCoins))
                    = nTargetValue"
  shows "fst (SelectCoinsMinConf CENT Shuffle rng1 rng2 nTargetValue nSpendTime nConfMine nConfTheirs vCoins)
       \<and> snd (snd (SelectCoinsMinConf CENT Shuffle rng1 rng2 nTargetValue nSpendTime nConfMine
                      nConfTheirs vCoins)) = nTargetValue
       \<and> coins_total (fst (snd (SelectCoinsMinConf CENT Shuffle rng1 rng2 nTargetValue nSpendTime
                                     nConfMine nConfTheirs vCoins))) = nTargetValue"
proof -
  from shuffle have perm: "mset (Shuffle vCoins) = mset vCoins" by (rule spec)
  note total = SelectCoinsMinConf_total [where Shuffle = Shuffle and vCoins = vCoins
      and CENT = CENT and ?rng1.0 = rng1 and ?rng2.0 = rng2 and T = nTargetValue
      and nSpendTime = nSpendTime and nConfMine = nConfMine and nConfTheirs = nConfTheirs,
      OF perm dist]
  from MinConf_scan_cases [where Shuffle = Shuffle and vCoins = vCoins and T = nTargetValue
      and CENT = CENT and nSpendTime = nSpendTime and nConfMine = nConfMine
      and nConfTheirs = nConfTheirs, OF perm]
  have main: "fst (SelectCoinsMinConf CENT Shuffle rng1 rng2 nTargetValue nSpendTime nConfMine
                     nConfTheirs vCoins)
       \<and> snd (snd (SelectCoinsMinConf CENT Shuffle rng1 rng2 nTargetValue nSpendTime nConfMine
                      nConfTheirs vCoins)) = nTargetValue"
proof (elim disjE conjE exE)
  fix c
  assume "MinConf_scan CENT Shuffle nTargetValue nSpendTime nConfMine nConfTheirs vCoins
            = Exact_match (nTargetValue, c)"
  then show ?thesis by (simp add: SelectCoinsMinConf_def)
next
  fix cll vValue
  let ?ntl = "sum_list (map output_value
                 (lower_coins CENT nTargetValue nSpendTime nConfMine nConfTheirs vCoins))"
  assume none: "\<forall>out \<in> set vCoins. eligible nSpendTime nConfMine nConfTheirs out
                  \<longrightarrow> output_value out \<noteq> nTargetValue"
    and sc: "MinConf_scan CENT Shuffle nTargetValue nSpendTime nConfMine nConfTheirs vCoins
               = Scanned cll vValue ?ntl"
    and vs: "sum_list (map fst vValue) = ?ntl"
  from none exact have eq: "?ntl = nTargetValue" by blast
  obtain S v where sa: "select_all vValue = (S, v)" by (cases "select_all vValue")
  with select_all_value [of vValue] vs eq have "v = nTargetValue" by simp
  with sc eq sa show ?thesis by (simp add: SelectCoinsMinConf_def)
qed
  with total show ?thesis by simp
qed

theorem exact_match_no_change_witness:
  "fst (SelectCoinsMinConf 1 no_shuffle rng_true rng_alt 80 1000 1 10 (coins_of [30, 50, 80]))
   \<and> snd (snd (SelectCoinsMinConf 1 no_shuffle rng_true rng_alt 80 1000 1 10 (coins_of [30, 50, 80])))
       = 80
   \<and> coins_total (fst (snd (SelectCoinsMinConf 1 no_shuffle rng_true rng_alt 80 1000 1 10
                                 (coins_of [30, 50, 80])))) = 80"
proof -
  have dist: "distinct (map outpoint (coins_of [30, 50, 80]))"
    by (simp add: coins_of_3 outpoint_def)
  have perm: "\<forall>xs. mset (no_shuffle xs) = mset xs"
    by (simp add: no_shuffle_def)
  have "\<exists>out \<in> set (coins_of [30, 50, 80]). eligible 1000 1 10 out \<and> output_value out = 80"
    by (simp add: coins_of_3 eligible_def output_value_def coins_tx_def)
  then have exact: "(\<exists>out \<in> set (coins_of [30, 50, 80]). eligible 1000 1 10 out \<and> output_value out = 80)
       \<or> sum_list (map output_value (lower_coins 1 80 1000 1 10 (coins_of [30, 50, 80]))) = 80"
    by (rule disjI1)
  from exact_match_no_change [OF perm dist exact] show ?thesis .
qed

text \<open>
  Claim C3, as amended. When the scan found a lowest larger coin and the smaller coins
  total more than the target, so that the approximation runs, the larger coin is returned
  exactly when the approximation is not exact and the larger coin is at least as close to
  the target, or the approximation is not exact and exceeds the target by less than
  \<open>CENT\<close>; otherwise the approximation's subset is returned, with total \<open>nBest\<close>.
\<close>

theorem prefer_larger_rule:
  assumes cent: "0 < CENT"
    and shuffle: "\<forall>xs. mset (Shuffle xs) = mset xs"
    and scan: "MinConf_scan CENT Shuffle nTargetValue nSpendTime nConfMine nConfTheirs vCoins
                 = Scanned (nLarger, Some cLarger) vValue nTotalLower"
    and more: "nTargetValue < nTotalLower"
    and approx: "MinConf_approx CENT rng1 rng2 nTargetValue (sort_descending vValue) nTotalLower
                   = (vfBest, nBest)"
  shows "SelectCoinsMinConf CENT Shuffle rng1 rng2 nTargetValue nSpendTime nConfMine nConfTheirs vCoins
           = (if claimed_prefer_larger nTargetValue nLarger nBest
                 \<or> (nBest \<noteq> nTargetValue \<and> nBest < nTargetValue + CENT)
              then (True, [cLarger], nLarger)
              else (True, fst (select_best (sort_descending vValue) vfBest), nBest))"
proof -
  from shuffle have perm: "mset (Shuffle vCoins) = mset vCoins" by (rule spec)
  from MinConf_scan_cases [where Shuffle = Shuffle and vCoins = vCoins and T = nTargetValue
      and CENT = CENT and nSpendTime = nSpendTime and nConfMine = nConfMine
      and nConfTheirs = nConfTheirs, OF perm] scan
  have vs: "sum_list (map fst vValue) = nTotalLower"
    and ok: "larger_ok CENT nTargetValue (nLarger, Some cLarger)"
    by auto
  from ok have large: "nTargetValue + CENT \<le> nLarger" by (simp add: larger_ok_def)
  have s1: "nTotalLower = sum_list (map fst (sort_descending vValue))"
    by (simp add: sort_descending_sum vs)
  from more have s2: "nTargetValue \<le> nTotalLower" by simp
  from cent have c0: "0 \<le> CENT" by simp
  from MinConf_approx_ok [OF s1 s2 c0 approx]
  have best: "nBest = subset_sum vfBest (sort_descending vValue)" "nTargetValue \<le> nBest"
    by simp_all
  have total: "snd (select_best (sort_descending vValue) vfBest) = nBest"
    by (simp add: select_best_value best(1))
  have rule: "prefer_larger CENT nTargetValue nLarger nBest
              = (claimed_prefer_larger nTargetValue nLarger nBest
                 \<or> (nBest \<noteq> nTargetValue \<and> nBest < nTargetValue + CENT))"
    using large best(2) cent by (auto simp: prefer_larger_def claimed_prefer_larger_def)
  obtain S v where sb: "select_best (sort_descending vValue) vfBest = (S, v)"
    by (cases "select_best (sort_descending vValue) vfBest")
  with total have v: "v = nBest" by simp
  show ?thesis
    using scan more approx sb v
    by (simp add: SelectCoinsMinConf_def Let_def rule [symmetric])
qed

lemma approx_rep_example:
  assumes "s_nBest s = 105" "s_vfBest s = [True, True]"
  shows "s_nBest (approx_rep rng_true [(60, c0), (45, c1)] 100 s) = 105
       \<and> s_vfBest (approx_rep rng_true [(60, c0), (45, c1)] 100 s) = [True, True]"
  using assms
  by (simp add: approx_rep_def approx_pass_def approx_step_def rng_true_def Let_def upt_rec)

lemma approx_reps_example:
  "s_nBest s = 105 \<Longrightarrow> s_vfBest s = [True, True] \<Longrightarrow>
   s_nBest (approx_reps rng_true [(60, c0), (45, c1)] 100 n s) = 105
   \<and> s_vfBest (approx_reps rng_true [(60, c0), (45, c1)] 100 n s) = [True, True]"
proof (induction n arbitrary: s)
  case 0
  then show ?case by simp
next
  case (Suc n)
  from approx_rep_example [OF Suc.prems]
  have "s_nBest (approx_rep rng_true [(60, c0), (45, c1)] 100 s) = 105"
    "s_vfBest (approx_rep rng_true [(60, c0), (45, c1)] 100 s) = [True, True]"
    by simp_all
  from Suc.IH [OF this] Suc.prems show ?case by simp
qed

lemma example_approx:
  "MinConf_approx 10 rng_true rng_true 100 [(60, c0), (45, c1)] 105 = ([True, True], 105)"
  using approx_reps_example [where s = "\<lparr> s_vfIncluded = [], s_nTotal = 0, s_fReachedTarget = False,
                  s_nBest = 105, s_vfBest = [True, True], s_rand = 0 \<rparr>" and n = 1000
                  and ?c0.0 = c0 and ?c1.0 = c1]
  by (simp add: MinConf_approx_def ApproximateBestSubset_def Let_def)

lemma example_scan:
  "MinConf_scan 10 no_shuffle 100 1000 1 10 (coins_of [60, 45, 200])
     = Scanned (200, Some (coins_tx [60, 45, 200], 2))
         [(60, (coins_tx [60, 45, 200], 0)), (45, (coins_tx [60, 45, 200], 1))] 105"
  by (simp add: MinConf_scan_def no_shuffle_def coins_of_3 Let_def INT64_MAX_def)
     (simp add: coins_tx_def)

lemma example_sorted: "sort_descending [(60, c0), (45, c1)] = [(60, c0), (45, c1)]"
  by (simp add: sort_descending_def)

theorem prefer_larger_rule_witness:
  "SelectCoinsMinConf 10 no_shuffle rng_true rng_true 100 1000 1 10 (coins_of [60, 45, 200])
     = (True, [(coins_tx [60, 45, 200], 2)], 200)"
proof -
  have more: "(100::int) < 105" by simp
  have approx: "MinConf_approx 10 rng_true rng_true 100
        (sort_descending [(60, (coins_tx [60, 45, 200], 0)), (45, (coins_tx [60, 45, 200], 1))]) 105
          = ([True, True], 105)"
    by (simp only: example_sorted example_approx)
  have cent: "(0::int) < 10" by simp
  have perm: "\<forall>xs. mset (no_shuffle xs) = mset xs"
    by (simp add: no_shuffle_def)
  from prefer_larger_rule [OF cent perm example_scan more approx] show ?thesis
    by (simp add: claimed_prefer_larger_def)
qed

text \<open>
  Claim C3 as stated fails: with smaller coins 60 and 45, a larger coin 200, target 100
  and \<open>CENT = 10\<close>, the approximation ends at 105, which is not exact and closer to the
  target than 200, yet the larger coin is returned.
\<close>

theorem prefer_larger_counterexample:
  "MinConf_scan 10 no_shuffle 100 1000 1 10 (coins_of [60, 45, 200])
     = Scanned (200, Some (coins_tx [60, 45, 200], 2))
         [(60, (coins_tx [60, 45, 200], 0)), (45, (coins_tx [60, 45, 200], 1))] 105
   \<and> MinConf_approx 10 rng_true rng_true 100
        [(60, (coins_tx [60, 45, 200], 0)), (45, (coins_tx [60, 45, 200], 1))] 105
       = ([True, True], 105)
   \<and> \<not> claimed_prefer_larger 100 200 105
   \<and> SelectCoinsMinConf 10 no_shuffle rng_true rng_true 100 1000 1 10 (coins_of [60, 45, 200])
       = (True, [(coins_tx [60, 45, 200], 2)], 200)"
  by (simp add: example_scan example_approx example_sorted SelectCoinsMinConf_def prefer_larger_def
        claimed_prefer_larger_def Let_def)

section \<open>Theorems: the transaction builder\<close>

















end
